theory Spec2Isabelle
  imports Main "HOL-Library.Sublist"
begin

section \<open>Strings of the host language\<close>

text \<open>
  The plugin (\<^verbatim>\<open>src/main.ts\<close>, the version with run scopes) works on JavaScript
  strings. A line is modelled as a \<^typ>\<open>string\<close>; a \<^typ>\<open>char\<close> stands for one UTF-16 code
  unit in the range 0..255, which covers every character the source names (among them
  the placeholder U+00A7). The classes \<^verbatim>\<open>\s\<close>, \<^verbatim>\<open>\d\<close> and \<^verbatim>\<open>.\<close> of the regular
  expressions are the ECMAScript ones, cut down to that range.
\<close>

definition isWs :: "char \<Rightarrow> bool" where
  \<comment> \<open>\<^verbatim>\<open>\s\<close>, and the characters \<^verbatim>\<open>trim()\<close> strips: TAB, LF, VT, FF, CR, space, NBSP\<close>
  "isWs c \<longleftrightarrow> c \<in> {CHR 0x09, CHR 0x0A, CHR 0x0B, CHR 0x0C, CHR 0x0D, CHR 0x20, CHR 0xA0}"

definition isLineTerm :: "char \<Rightarrow> bool" where
  \<comment> \<open>the characters \<^verbatim>\<open>.\<close> does not match: LF and CR\<close>
  "isLineTerm c \<longleftrightarrow> c = CHR 0x0A \<or> c = CHR 0x0D"

definition isDigit :: "char \<Rightarrow> bool" where
  \<comment> \<open>\<^verbatim>\<open>\d\<close>\<close>
  "isDigit c \<longleftrightarrow> c \<in> set ''0123456789''"

definition trim :: "string \<Rightarrow> string" where
  "trim s = rev (dropWhile isWs (rev (dropWhile isWs s)))"

definition startsWith :: "string \<Rightarrow> string \<Rightarrow> bool" where
  \<comment> \<open>\<^verbatim>\<open>s.startsWith(p)\<close>\<close>
  "startsWith s p \<longleftrightarrow> take (length p) s = p"

fun str_includes :: "string \<Rightarrow> string \<Rightarrow> bool" where
  \<comment> \<open>\<^verbatim>\<open>s.includes(m)\<close>: \<open>m\<close> occurs in \<open>s\<close> as a contiguous substring\<close>
  "str_includes [] m = (m = [])"
| "str_includes (c # cs) m = (startsWith (c # cs) m \<or> str_includes cs m)"

fun findIndex :: "('a \<Rightarrow> bool) \<Rightarrow> 'a list \<Rightarrow> nat option" where
  \<comment> \<open>\<^verbatim>\<open>xs.findIndex(P)\<close>; \<open>None\<close> is the source's \<open>-1\<close>\<close>
  "findIndex P [] = None"
| "findIndex P (x # xs) = (if P x then Some 0 else map_option Suc (findIndex P xs))"

definition indexOf :: "'a list \<Rightarrow> 'a \<Rightarrow> nat \<Rightarrow> nat option" where
  \<comment> \<open>\<^verbatim>\<open>xs.indexOf(x, from)\<close>\<close>
  "indexOf xs x from = map_option (\<lambda>k. from + k) (findIndex (\<lambda>y. y = x) (drop from xs))"

definition splice_ins :: "'a list \<Rightarrow> nat \<Rightarrow> 'a list \<Rightarrow> 'a list" where
  \<comment> \<open>\<^verbatim>\<open>xs.splice(i, 0, ...ys)\<close>, the array afterwards\<close>
  "splice_ins xs i ys = take i xs @ ys @ drop i xs"

definition splice_del :: "'a list \<Rightarrow> nat \<Rightarrow> 'a list" where
  \<comment> \<open>\<^verbatim>\<open>xs.splice(i, 1)\<close>, the array afterwards\<close>
  "splice_del xs i = take i xs @ drop (Suc i) xs"

subsection \<open>Global replacement\<close>

text \<open>
  \<^verbatim>\<open>s.replace(/re/g, repl)\<close> for a regular expression without capture groups that never
  matches the empty string. The expression is given by \<open>m\<close>, which returns the length
  of its match at the head of the rest of the string. In the replacement text \<^verbatim>\<open>$$\<close>
  stands for a dollar sign, \<^verbatim>\<open>$&\<close> for the match, \<^verbatim>\<open>$`\<close> for the part of the string
  before the match and \<^verbatim>\<open>$'\<close> for the part after it; every other character, a dollar
  sign before a digit included (there are no groups), stands for itself.
\<close>

fun expandRepl :: "string \<Rightarrow> string \<Rightarrow> string \<Rightarrow> string \<Rightarrow> string" where
  "expandRepl matched pre post [] = []"
| "expandRepl matched pre post [c] = [c]"
| "expandRepl matched pre post (c # d # r) =
     (if c = CHR ''$'' \<and> d = CHR ''$'' then CHR ''$'' # expandRepl matched pre post r
      else if c = CHR ''$'' \<and> d = CHR ''&'' then matched @ expandRepl matched pre post r
      else if c = CHR ''$'' \<and> d = CHR 0x60 then pre @ expandRepl matched pre post r
      else if c = CHR ''$'' \<and> d = CHR 0x27 then post @ expandRepl matched pre post r
      else c # expandRepl matched pre post (d # r))"

function replaceFrom :: "(string \<Rightarrow> nat) \<Rightarrow> string \<Rightarrow> string \<Rightarrow> string \<Rightarrow> string" where
  "replaceFrom m repl pre [] = []"
| "replaceFrom m repl pre (c # cs) =
     (let k = m (c # cs) in
      if 0 < k then
        expandRepl (take k (c # cs)) pre (drop k (c # cs)) repl
          @ replaceFrom m repl (pre @ take k (c # cs)) (drop k (c # cs))
      else c # replaceFrom m repl (pre @ [c]) cs)"
  by pat_completeness auto
termination
  by (relation "measure (\<lambda>(m, repl, pre, s). length s)") auto

definition replaceAll :: "(string \<Rightarrow> nat) \<Rightarrow> string \<Rightarrow> string \<Rightarrow> string" where
  "replaceAll m repl s = replaceFrom m repl [] s"

definition matchLit :: "string \<Rightarrow> string \<Rightarrow> nat" where
  \<comment> \<open>a literal pattern such as \<^verbatim>\<open>/filename/\<close>\<close>
  "matchLit needle s = (if needle \<noteq> [] \<and> startsWith s needle then length needle else 0)"

definition matchClass :: "(char \<Rightarrow> bool) \<Rightarrow> string \<Rightarrow> nat" where
  \<comment> \<open>one character of a class, \<^verbatim>\<open>/[...]/\<close>\<close>
  "matchClass P s = (case s of [] \<Rightarrow> 0 | c # _ \<Rightarrow> if P c then 1 else 0)"

definition matchRun :: "(char \<Rightarrow> bool) \<Rightarrow> string \<Rightarrow> nat" where
  \<comment> \<open>the longest run of characters of a class, \<^verbatim>\<open>/[...]+/\<close>\<close>
  "matchRun P s = length (takeWhile P s)"

section \<open>FrontMatterLocator\<close>

definition findYamlEnd :: "string list \<Rightarrow> nat" where
  "findYamlEnd lines =
     (case lines of
        [] \<Rightarrow> 0
      | l0 # _ \<Rightarrow>
          if l0 = ''---'' then
            (case indexOf lines ''---'' 1 of Some e \<Rightarrow> e + 1 | None \<Rightarrow> 0)
          else 0)"

section \<open>PathMatcher\<close>

subsection \<open>The regular expressions that the compiler can emit\<close>

text \<open>
  \<^verbatim>\<open>new RegExp(src)\<close> is modelled for the fragment of the syntax that \<open>globToRegExp\<close>
  writes: the assertions \<^verbatim>\<open>^\<close> and \<^verbatim>\<open>$\<close>, a literal character, an escaped syntax
  character, \<^verbatim>\<open>.\<close>, the class \<^verbatim>\<open>[^/]\<close>, and the quantifiers \<^verbatim>\<open>*\<close> and \<^verbatim>\<open>?\<close>, each
  with an optional lazy mark \<^verbatim>\<open>?\<close>. A quantifier with nothing to repeat is the
  constructor's SyntaxError; any other syntax is reported as outside the fragment.
\<close>

datatype atom = Lit char | Dot | NotSlash

datatype quant = Once | Opt | Star

datatype item = AssertStart | AssertEnd | Rep atom quant

type_synonym regexp = "item list"

datatype re_error = SyntaxError | Unsupported

definition isSyntaxChar :: "char \<Rightarrow> bool" where
  "isSyntaxChar c \<longleftrightarrow> c = CHR 0x5C \<or> c \<in> set ''^$.*+?()[]{}|/''"

definition parseQuant :: "string \<Rightarrow> re_error + (quant \<times> string)" where
  \<comment> \<open>the quantifier after an atom, and the rest of the source\<close>
  "parseQuant s =
     (case s of
        [] \<Rightarrow> Inr (Once, [])
      | q # r \<Rightarrow>
          if q = CHR ''*'' \<or> q = CHR ''?'' then
            Inr (if q = CHR ''*'' then Star else Opt,
                 case r of [] \<Rightarrow> [] | l # r' \<Rightarrow> if l = CHR ''?'' then r' else r)
          else if q = CHR ''+'' \<or> q = CHR ''{'' then Inl Unsupported
          else Inr (Once, s))"

definition quantified :: "atom \<Rightarrow> string \<Rightarrow> re_error + (item \<times> string)" where
  "quantified a s = (case parseQuant s of Inl e \<Rightarrow> Inl e | Inr (q, r) \<Rightarrow> Inr (Rep a q, r))"

definition parseItem :: "string \<Rightarrow> re_error + (item \<times> string)" where
  \<comment> \<open>one term at the head of a non-empty source\<close>
  "parseItem s =
     (case s of
        [] \<Rightarrow> Inl SyntaxError
      | c # cs \<Rightarrow>
          if c = CHR ''^'' then Inr (AssertStart, cs)
          else if c = CHR ''$'' then Inr (AssertEnd, cs)
          else if c = CHR 0x5C then
            (case cs of
               [] \<Rightarrow> Inl SyntaxError
             | d # ds \<Rightarrow> if isSyntaxChar d then quantified (Lit d) ds else Inl Unsupported)
          else if c = CHR ''.'' then quantified Dot cs
          else if c = CHR ''['' then
            (if startsWith cs ''^/]'' then quantified NotSlash (drop 3 cs) else Inl Unsupported)
          else if c = CHR ''*'' \<or> c = CHR ''+'' \<or> c = CHR ''?'' then Inl SyntaxError
          else if c \<in> set ''()|]{}'' then Inl Unsupported
          else quantified (Lit c) cs)"

lemma parseQuant_length: "parseQuant s = Inr (q, r) \<Longrightarrow> length r \<le> length s"
  by (auto simp: parseQuant_def split: list.splits if_splits)

lemma quantified_length: "quantified a s = Inr (it, r) \<Longrightarrow> length r \<le> length s"
  by (auto simp: quantified_def split: sum.splits dest: parseQuant_length)

lemma parseItem_length: "parseItem s = Inr (it, r) \<Longrightarrow> length r < length s"
  by (auto simp: parseItem_def split: list.splits if_splits dest!: quantified_length)

function parseRegExp :: "string \<Rightarrow> re_error + regexp" where
  "parseRegExp s =
     (if s = [] then Inr []
      else case parseItem s of
             Inl e \<Rightarrow> Inl e
           | Inr (it, r) \<Rightarrow>
               (case parseRegExp r of Inl e \<Rightarrow> Inl e | Inr its \<Rightarrow> Inr (it # its)))"
  by pat_completeness auto
termination
  by (relation "measure length") (auto dest: parseItem_length)

declare parseRegExp.simps [simp del]

definition atomOk :: "atom \<Rightarrow> char \<Rightarrow> bool" where
  "atomOk a c = (case a of Lit d \<Rightarrow> c = d | Dot \<Rightarrow> \<not> isLineTerm c | NotSlash \<Rightarrow> c \<noteq> CHR ''/'')"

text \<open>
  \<open>matchHere re pos s\<close>: the expression matches a prefix of \<open>s\<close>, where \<open>pos\<close>
  characters of the input come before \<open>s\<close>. No flag is set, so \<^verbatim>\<open>^\<close> holds at position
  0 only and \<^verbatim>\<open>$\<close> at the end of the input only.
\<close>

fun matchHere :: "regexp \<Rightarrow> nat \<Rightarrow> string \<Rightarrow> bool" where
  "matchHere [] pos s = True"
| "matchHere (AssertStart # re) pos s = (pos = 0 \<and> matchHere re pos s)"
| "matchHere (AssertEnd # re) pos s = (s = [] \<and> matchHere re pos s)"
| "matchHere (Rep a Once # re) pos [] = False"
| "matchHere (Rep a Once # re) pos (c # cs) = (atomOk a c \<and> matchHere re (Suc pos) cs)"
| "matchHere (Rep a Opt # re) pos [] = matchHere re pos []"
| "matchHere (Rep a Opt # re) pos (c # cs) =
     ((atomOk a c \<and> matchHere re (Suc pos) cs) \<or> matchHere re pos (c # cs))"
| "matchHere (Rep a Star # re) pos [] = matchHere re pos []"
| "matchHere (Rep a Star # re) pos (c # cs) =
     ((atomOk a c \<and> matchHere (Rep a Star # re) (Suc pos) cs) \<or> matchHere re pos (c # cs))"

definition re_test :: "regexp \<Rightarrow> string \<Rightarrow> bool" where
  \<comment> \<open>\<^verbatim>\<open>re.test(s)\<close>: a match starting at some position of \<open>s\<close>\<close>
  "re_test re s = list_ex (\<lambda>i. matchHere re i (drop i s)) [0..<Suc (length s)]"

subsection \<open>globToRegExp\<close>

definition globToRegExp :: "string \<Rightarrow> re_error + regexp" where
  "globToRegExp pattern =
     (let escaped = replaceAll (matchClass (\<lambda>c. c \<in> set ''.+^${}()|[]'' \<or> c = CHR 0x5C))
                      [CHR 0x5C, CHR ''$'', CHR ''&''] pattern;
          withPlaceholders = replaceAll (matchLit ''**'') [CHR 0xA7, CHR 0xA7] escaped;
          single = replaceAll (matchLit ''*'') ''[^/]*'' withPlaceholders
      in parseRegExp (''^'' @ replaceAll (matchLit [CHR 0xA7, CHR 0xA7]) ''.*'' single @ ''$''))"

section \<open>ScopeGate\<close>

datatype run_scope = ScopeAll | ScopeInclude | ScopeExclude

record settings =
  headingLevel :: nat
  targetDeckTemplate :: string
  enableTargetDeck :: bool
  enableHeadingOps :: bool
  enableListTidy :: bool
  runScope :: run_scope
  includePaths :: "string list"
  excludePaths :: "string list"

record plugin =
  settings :: settings
  includePatterns :: "regexp list"
  excludePatterns :: "regexp list"

definition isInScope :: "plugin \<Rightarrow> string \<Rightarrow> bool" where
  "isInScope this path =
     (if runScope (settings this) = ScopeInclude then
        list_ex (\<lambda>r. re_test r path) (includePatterns this)
      else if runScope (settings this) = ScopeExclude then
        \<not> list_ex (\<lambda>r. re_test r path) (excludePatterns this)
      else True)"

definition toGlob :: "string \<Rightarrow> string" where
  "toGlob p = (if p \<noteq> [] \<and> last p = CHR ''/'' then p @ ''**'' else p)"

fun compileAll :: "string list \<Rightarrow> re_error + regexp list" where
  \<comment> \<open>\<^verbatim>\<open>paths.map(p => globToRegExp(toGlob(p)))\<close>; the first SyntaxError ends the call\<close>
  "compileAll [] = Inr []"
| "compileAll (p # ps) =
     (case globToRegExp (toGlob p) of
        Inl e \<Rightarrow> Inl e
      | Inr r \<Rightarrow> (case compileAll ps of Inl e \<Rightarrow> Inl e | Inr rs \<Rightarrow> Inr (r # rs)))"

definition updateScopePatterns :: "plugin \<Rightarrow> re_error + plugin" where
  "updateScopePatterns this =
     (case compileAll (includePaths (settings this)) of
        Inl e \<Rightarrow> Inl e
      | Inr inc \<Rightarrow>
          (case compileAll (excludePaths (settings this)) of
             Inl e \<Rightarrow> Inl e
           | Inr exc \<Rightarrow> Inr (this\<lparr>includePatterns := inc, excludePatterns := exc\<rparr>)))"

section \<open>The document pipeline\<close>

text \<open>
  The three components mutate the array \<open>lines\<close> in place and return whether they
  changed it; the model passes the array through and returns it with the flag.
\<close>

record tfile =
  path :: string
  basename :: string

subsection \<open>DeckHeaderInserter\<close>

definition marker :: string where
  "marker = ''TARGET DECK''"

definition ensureTargetDeck :: "settings \<Rightarrow> string list \<Rightarrow> tfile \<Rightarrow> string list \<times> bool" where
  "ensureTargetDeck cfg lines file =
     (if list_ex (\<lambda>l. str_includes l marker) lines then (lines, False)
      else
        let idx = findYamlEnd lines;
            idx = (if idx = 0 then
                     (case findIndex (\<lambda>l. startsWith (trim l) ''#'') lines of
                        Some fh \<Rightarrow> fh
                      | None \<Rightarrow> idx)
                   else idx);
            tpl = replaceAll (matchLit ''filename'') (basename file) (targetDeckTemplate cfg);
            (lines, idx) = (if 0 < idx \<and> lines ! (idx - 1) = ''---''
                            then (splice_ins lines idx [[]], idx + 1)
                            else (lines, idx))
        in (splice_ins lines idx [marker, tpl, []], True))"

subsection \<open>HeadingNormalizer\<close>

definition hPrefixOf :: "nat \<Rightarrow> string" where
  \<comment> \<open>\<^verbatim>\<open>"#".repeat(headingLevel) + " "\<close>\<close>
  "hPrefixOf level = replicate level (CHR ''#'') @ '' ''"

definition cleanHeadingOf :: "string \<Rightarrow> string" where
  \<comment> \<open>\<^verbatim>\<open>rawHeading.replace(/[`<>]+/g, "").trim()\<close>\<close>
  "cleanHeadingOf rawHeading =
     trim (replaceAll (matchRun (\<lambda>c. c \<in> {CHR 0x60, CHR ''<'', CHR ''>''})) [] rawHeading)"

definition backlinkOf :: "string \<Rightarrow> string \<Rightarrow> string" where
  "backlinkOf noteName cleanHeading = ''[['' @ noteName @ ''#'' @ cleanHeading @ '']]''"

definition isBacklinkShape :: "string \<Rightarrow> bool" where
  \<comment> \<open>\<^verbatim>\<open>/^\[\[.*?#.*?\]\]$/.test(s)\<close>\<close>
  "isBacklinkShape s \<longleftrightarrow>
     5 \<le> length s \<and> take 2 s = ''[['' \<and> drop (length s - 2) s = '']]'' \<and>
     (let mid = take (length s - 4) (drop 2 s)
      in CHR ''#'' \<in> set mid \<and> \<not> list_ex isLineTerm mid)"

function skipBlank :: "string list \<Rightarrow> nat \<Rightarrow> nat" where
  \<comment> \<open>\<^verbatim>\<open>while (j < lines.length && lines[j].trim() === "") j++;\<close>\<close>
  "skipBlank lines j =
     (if j < length lines \<and> trim (lines ! j) = [] then skipBlank lines (Suc j) else j)"
  by pat_completeness auto
termination
  by (relation "measure (\<lambda>(lines, j). length lines - j)") auto

declare skipBlank.simps [simp del]

definition headingStep :: "string \<Rightarrow> string \<Rightarrow> nat \<Rightarrow> string list \<times> bool \<Rightarrow> string list \<times> bool" where
  \<comment> \<open>the loop body at a line \<open>i\<close> that starts with the prefix\<close>
  "headingStep hPrefix noteName i st =
     (case st of (lines, changed) \<Rightarrow>
        let line = lines ! i;
            rawHeading = drop (length hPrefix) line;
            cleanHeading = cleanHeadingOf rawHeading;
            (lines, changed) = (if rawHeading \<noteq> cleanHeading
                                then (lines[i := hPrefix @ cleanHeading], True)
                                else (lines, changed));
            backlink = backlinkOf noteName cleanHeading;
            j = skipBlank lines (i + 1)
        in if length lines \<le> j then (lines @ [backlink], True)
           else if \<not> isBacklinkShape (trim (lines ! j)) then (splice_ins lines j [backlink], True)
           else if trim (lines ! j) \<noteq> backlink then (lines[j := backlink], True)
           else (lines, changed))"

text \<open>
  The scan \<^verbatim>\<open>for (let i = start; i < lines.length; i++)\<close>. A step can lengthen the array
  by one line, so the distance to the end of the array does not decrease; the number of
  prefixed lines still ahead does, since the line that a step inserts or writes is a
  backlink, which never starts with the prefix.
\<close>

lemma skipBlank_ge: "j \<le> skipBlank lines j"
proof (induction lines j rule: skipBlank.induct)
  case (1 lines j)
  show ?case
  proof (cases "j < length lines \<and> trim (lines ! j) = []")
    case True
    with 1 have "Suc j \<le> skipBlank lines (Suc j)" by simp
    moreover from True have "skipBlank lines j = skipBlank lines (Suc j)"
      by (subst skipBlank.simps) simp
    ultimately show ?thesis by simp
  next
    case False
    then show ?thesis by (subst skipBlank.simps) auto
  qed
qed

lemma backlink_not_heading: "\<not> startsWith (backlinkOf note c) (hPrefixOf level)"
  by (cases level) (simp_all add: startsWith_def hPrefixOf_def backlinkOf_def)

lemma filter_update_le: "\<not> P y \<Longrightarrow> length (filter P (xs[k := y])) \<le> length (filter P xs)"
  by (induction xs arbitrary: k) (auto split: nat.splits)

lemma drop_update_same: "k \<le> i \<Longrightarrow> drop (Suc i) (xs[k := y]) = drop (Suc i) xs"
  by simp

lemma headingStep_measure:
  assumes "i < length lines"
    and "headingStep (hPrefixOf level) note i (lines, ch) = (lines', ch')"
  shows "length (filter (\<lambda>l. startsWith l (hPrefixOf level)) (drop (Suc i) lines'))
           \<le> length (filter (\<lambda>l. startsWith l (hPrefixOf level)) (drop (Suc i) lines))
         \<and> length lines' \<le> Suc (length lines)"
proof -
  define hp where "hp = hPrefixOf level"
  define H where "H = (\<lambda>l. startsWith l hp)"
  define c where "c = cleanHeadingOf (drop (length hp) (lines ! i))"
  define l1 where "l1 = (if drop (length hp) (lines ! i) \<noteq> c then lines[i := hp @ c] else lines)"
  define bl where "bl = backlinkOf note c"
  define j where "j = skipBlank l1 (Suc i)"
  have len1: "length l1 = length lines" by (simp add: l1_def)
  have d1: "drop (Suc i) l1 = drop (Suc i) lines" by (simp add: l1_def)
  have ij: "Suc i \<le> j" unfolding j_def by (rule skipBlank_ge)
  have nH: "\<not> H bl" unfolding H_def bl_def hp_def by (rule backlink_not_heading)
  have res: "lines' = (if length l1 \<le> j then l1 @ [bl]
                      else if \<not> isBacklinkShape (trim (l1 ! j)) then splice_ins l1 j [bl]
                      else if trim (l1 ! j) \<noteq> bl then l1[j := bl] else l1)"
    using assms(2)
    by (auto simp: headingStep_def Let_def hp_def c_def l1_def bl_def j_def split: if_splits)
  have A: "length (filter H (drop (Suc i) (l1 @ [bl]))) = length (filter H (drop (Suc i) l1))"
    using assms(1) nH by (simp add: len1)
  have B: "length (filter H (drop (Suc i) (splice_ins l1 j [bl]))) = length (filter H (drop (Suc i) l1))"
    if "j < length l1"
  proof -
    have "drop (Suc i) l1 = drop (Suc i) (take j l1 @ drop j l1)" by simp
    also have "\<dots> = drop (Suc i) (take j l1) @ drop j l1"
      using ij that by (simp del: append_take_drop_id)
    finally have "drop (Suc i) l1 = drop (Suc i) (take j l1) @ drop j l1" .
    moreover have "drop (Suc i) (splice_ins l1 j [bl]) = drop (Suc i) (take j l1) @ bl # drop j l1"
      using ij that by (simp add: splice_ins_def)
    ultimately show ?thesis using nH by simp
  qed
  have C: "length (filter H (drop (Suc i) (l1[j := bl]))) \<le> length (filter H (drop (Suc i) l1))"
    using ij nH by (simp add: drop_update_swap filter_update_le)
  show ?thesis
  proof (cases "length l1 \<le> j")
    case True
    then have "lines' = l1 @ [bl]" using res by simp
    then show ?thesis using A d1 len1 by (simp add: H_def hp_def)
  next
    case nj: False
    show ?thesis
    proof (cases "isBacklinkShape (trim (l1 ! j))")
      case False
      then have "lines' = splice_ins l1 j [bl]" using res nj by simp
      then show ?thesis using B nj d1 len1 by (simp add: H_def hp_def splice_ins_def)
    next
      case True
      then have "lines' = l1[j := bl] \<or> lines' = l1" using res nj by auto
      then show ?thesis using C d1 len1 by (auto simp: H_def hp_def)
    qed
  qed
qed


function rewriteLoop :: "nat \<Rightarrow> string \<Rightarrow> nat \<Rightarrow> string list \<times> bool \<Rightarrow> string list \<times> bool" where
  "rewriteLoop level noteName i (lines, changed) =
     (if i < length lines then
        (if \<not> startsWith (lines ! i) (hPrefixOf level)
         then rewriteLoop level noteName (Suc i) (lines, changed)
         else rewriteLoop level noteName (Suc i)
                (headingStep (hPrefixOf level) noteName i (lines, changed)))
      else (lines, changed))"
  by pat_completeness auto
termination
proof (relation "measure (\<lambda>(level, noteName, i, lines, changed).
          2 * length (filter (\<lambda>l. startsWith l (hPrefixOf level)) (drop i lines))
            + (length lines - i))", goal_cases)
  case 1
  show ?case by simp
next
  case (2 level noteName i lines changed)
  then have "drop i lines = lines ! i # drop (Suc i) lines"
    by (simp add: Cons_nth_drop_Suc)
  with 2 show ?case by simp
next
  case (3 level noteName i lines changed)
  obtain lines' ch' where st: "headingStep (hPrefixOf level) noteName i (lines, changed) = (lines', ch')"
    by (cases "headingStep (hPrefixOf level) noteName i (lines, changed)")
  from 3 have d: "drop i lines = lines ! i # drop (Suc i) lines"
    by (simp add: Cons_nth_drop_Suc)
  define f where "f = (\<lambda>xs. length (filter (\<lambda>l. startsWith l (hPrefixOf level)) xs))"
  from headingStep_measure[OF 3(1) st]
  have m: "f (drop (Suc i) lines') \<le> f (drop (Suc i) lines)" "length lines' \<le> Suc (length lines)"
    by (simp_all add: f_def)
  from 3 d have "f (drop i lines) = Suc (f (drop (Suc i) lines))" by (simp add: f_def)
  with m 3(1) have "2 * f (drop (Suc i) lines') + (length lines' - Suc i)
                      < 2 * f (drop i lines) + (length lines - i)" by arith
  then show ?case by (simp add: st f_def)
qed

declare rewriteLoop.simps [simp del]

subsection \<open>ListTidier: the classifiers\<close>

definition isList :: "string \<Rightarrow> bool" where
  \<comment> \<open>\<^verbatim>\<open>/^(\s*)([-+*]|\d+\.)\s*/.test(l)\<close>\<close>
  "isList l =
     (case dropWhile isWs l of
        [] \<Rightarrow> False
      | c # cs \<Rightarrow>
          c \<in> set ''-+*'' \<or>
          (isDigit c \<and> (case dropWhile isDigit cs of [] \<Rightarrow> False | d # _ \<Rightarrow> d = CHR ''.'')))"

definition isEmptyItem :: "string \<Rightarrow> bool" where
  \<comment> \<open>\<^verbatim>\<open>/^(\s*)([-+*]|\d+\.)\s*$/.test(l)\<close>\<close>
  "isEmptyItem l =
     (case dropWhile isWs l of
        [] \<Rightarrow> False
      | c # cs \<Rightarrow>
          (c \<in> set ''-+*'' \<and> list_all isWs cs) \<or>
          (isDigit c \<and>
             (case dropWhile isDigit cs of
                [] \<Rightarrow> False
              | d # ds \<Rightarrow> d = CHR ''.'' \<and> list_all isWs ds)))"

definition isBlankLine :: "string \<Rightarrow> bool" where
  \<comment> \<open>\<^verbatim>\<open>/^\s*$/.test(l)\<close>\<close>
  "isBlankLine l = list_all isWs l"

definition isHtmlCmt :: "string \<Rightarrow> bool" where
  \<comment> \<open>\<^verbatim>\<open>/^\s*<!--.*-->/.test(l)\<close>\<close>
  "isHtmlCmt l =
     (let r = dropWhile isWs l
      in startsWith r ''<!--'' \<and>
         str_includes (takeWhile (\<lambda>c. \<not> isLineTerm c) (drop 4 r)) ''-->'')"

definition needSpace :: "string \<Rightarrow> bool" where
  "needSpace nextLine \<longleftrightarrow> \<not> isBlankLine nextLine \<and> \<not> isList nextLine \<and> \<not> isHtmlCmt nextLine"

subsection \<open>ListTidier: the loops\<close>

text \<open>
  The source's \<open>end\<close> and \<open>j\<close> fall to \<open>-1\<close> when the block at line 0 is emptied.
  The model keeps both one higher, as naturals: \<open>e1\<close> is \<open>end + 1\<close> (the index of
  the line after the block) and the second argument of \<open>removeEmpty\<close> is \<open>j + 1\<close>.
\<close>

function blockEnd :: "string list \<Rightarrow> nat \<Rightarrow> nat" where
  \<comment> \<open>\<^verbatim>\<open>while (end + 1 < lines.length && isList(lines[end + 1])) end++;\<close>\<close>
  "blockEnd lines e1 =
     (if e1 < length lines \<and> isList (lines ! e1) then blockEnd lines (Suc e1) else e1)"
  by pat_completeness auto
termination
  by (relation "measure (\<lambda>(lines, e1). length lines - e1)") auto

declare blockEnd.simps [simp del]

fun removeEmpty :: "nat \<Rightarrow> nat \<Rightarrow> string list \<times> nat \<times> bool \<Rightarrow> string list \<times> nat \<times> bool" where
  \<comment> \<open>\<^verbatim>\<open>for (let j = end; j >= i; j--) if (isEmptyItem(lines[j])) { lines.splice(j, 1); changed = true; end--; }\<close>\<close>
  "removeEmpty i 0 st = st"
| "removeEmpty i (Suc j) (lines, e1, changed) =
     (if i \<le> j then
        (if isEmptyItem (lines ! j)
         then removeEmpty i j (splice_del lines j, e1 - 1, True)
         else removeEmpty i j (lines, e1, changed))
      else (lines, e1, changed))"

definition spacing :: "nat \<Rightarrow> string list \<times> bool \<Rightarrow> string list \<times> bool" where
  \<comment> \<open>the separator before \<open>nextLine = lines[end + 1]\<close>, when there is such a line\<close>
  "spacing e1 st =
     (case st of (lines, changed) \<Rightarrow>
        if e1 < length lines then
          (if needSpace (lines ! e1) then (splice_ins lines e1 ['' ''], True)
           else (lines, changed))
        else (lines, changed))"

definition blockStep :: "nat \<Rightarrow> string list \<times> bool \<Rightarrow> string list \<times> nat \<times> bool" where
  \<comment> \<open>the loop body at a list line \<open>i\<close>: the array, \<open>end + 1\<close> and the flag afterwards\<close>
  "blockStep i st =
     (case st of (lines, changed) \<Rightarrow>
        let e1 = blockEnd lines (Suc i) in
        case removeEmpty i e1 (lines, e1, changed) of
          (lines, e1, changed) \<Rightarrow>
            (case spacing e1 (lines, changed) of (lines, changed) \<Rightarrow> (lines, e1, changed)))"

text \<open>
  What one pass of the loop body does to a block, in closed form: the lines before
  \<open>i\<close> stay, the block loses its empty items, and the separator goes between the
  block and the rest.
\<close>

lemma blockEnd_eq:
  "e1 \<le> length lines \<Longrightarrow> blockEnd lines e1 = e1 + length (takeWhile isList (drop e1 lines))"
proof (induction lines e1 rule: blockEnd.induct)
  case (1 lines e1)
  show ?case
  proof (cases "e1 < length lines \<and> isList (lines ! e1)")
    case True
    then have d: "drop e1 lines = lines ! e1 # drop (Suc e1) lines"
      by (simp add: Cons_nth_drop_Suc)
    from True 1 have "blockEnd lines (Suc e1) = Suc e1 + length (takeWhile isList (drop (Suc e1) lines))"
      by simp
    with True d show ?thesis by (subst blockEnd.simps) simp
  next
    case False
    show ?thesis
    proof (cases "e1 < length lines")
      case True
      with False have "\<not> isList (lines ! e1)" by simp
      moreover from True have "drop e1 lines = lines ! e1 # drop (Suc e1) lines"
        by (simp add: Cons_nth_drop_Suc)
      ultimately show ?thesis by (subst blockEnd.simps) simp
    next
      case False
      with 1(2) show ?thesis by (subst blockEnd.simps) simp
    qed
  qed
qed

lemma removeEmpty_eq:
  "i \<le> j1 \<Longrightarrow> j1 \<le> length lines \<Longrightarrow>
   removeEmpty i j1 (lines, e1, ch) =
     (take i lines @ filter (\<lambda>l. \<not> isEmptyItem l) (take (j1 - i) (drop i lines)) @ drop j1 lines,
      e1 - length (filter isEmptyItem (take (j1 - i) (drop i lines))),
      ch \<or> list_ex isEmptyItem (take (j1 - i) (drop i lines)))"
proof (induction j1 arbitrary: lines e1 ch)
  case 0
  then show ?case by simp
next
  case (Suc j)
  show ?case
  proof (cases "i \<le> j")
    case False
    with Suc.prems have "i = Suc j" by simp
    then show ?thesis by simp
  next
    case True
    from Suc.prems have jl: "j < length lines" by simp
    have seg: "take (Suc j - i) (drop i lines) = take (j - i) (drop i lines) @ [lines ! j]"
      using True jl by (simp add: Suc_diff_le take_Suc_conv_app_nth)
    show ?thesis
    proof (cases "isEmptyItem (lines ! j)")
      case False
      with True Suc.IH[of lines e1 ch] jl seg show ?thesis
        by (simp add: Cons_nth_drop_Suc)
    next
      case e: True
      let ?l' = "splice_del lines j"
      have a: "take i ?l' = take i lines" using True jl by (simp add: splice_del_def)
      have b: "take (j - i) (drop i ?l') = take (j - i) (drop i lines)"
        using True jl by (simp add: splice_del_def drop_take)
      have c: "drop j ?l' = drop (Suc j) lines" using jl by (simp add: splice_del_def)
      have l: "j \<le> length ?l'" using jl by (simp add: splice_del_def)
      from True e Suc.IH[OF True l, of "e1 - 1" True] a b c seg show ?thesis
        by simp
    qed
  qed
qed

definition sepOf :: "string list \<Rightarrow> string list" where
  "sepOf rest = (case rest of [] \<Rightarrow> [] | n # _ \<Rightarrow> if needSpace n then ['' ''] else [])"

lemma blockStep_eq:
  assumes "i < length lines" and "isList (lines ! i)"
  defines "block \<equiv> takeWhile isList (drop i lines)"
    and "rest \<equiv> dropWhile isList (drop i lines)"
  defines "kept \<equiv> filter (\<lambda>l. \<not> isEmptyItem l) block"
  shows "blockStep i (lines, ch) =
           (take i lines @ kept @ sepOf rest @ rest, i + length kept,
            ch \<or> length kept < length block \<or> sepOf rest \<noteq> [])"
proof -
  define e0 where "e0 = blockEnd lines (Suc i)"
  have d: "drop i lines = lines ! i # drop (Suc i) lines"
    using assms(1) by (simp add: Cons_nth_drop_Suc)
  have e0: "e0 = i + length block"
    using assms(1,2) d by (simp add: e0_def blockEnd_eq block_def)
  have "length block \<le> length (drop i lines)"
    unfolding block_def by (rule length_takeWhile_le)
  then have e0_le: "e0 \<le> length lines" using e0 assms(1) by simp
  have seg: "take (e0 - i) (drop i lines) = block"
    using e0 by (simp add: block_def takeWhile_eq_take[symmetric])
  have dr: "drop e0 lines = rest"
    using e0 by (simp add: rest_def block_def dropWhile_eq_drop add.commute)
  have cnt: "length block = length kept + length (filter isEmptyItem block)"
    using sum_length_filter_compl[of isEmptyItem block] by (simp add: kept_def)
  have ex: "list_ex isEmptyItem block \<longleftrightarrow> length kept < length block"
    using cnt by (auto simp: list_ex_iff filter_empty_conv)
  have re: "removeEmpty i e0 (lines, e0, ch) =
              (take i lines @ kept @ rest, i + length kept, ch \<or> length kept < length block)"
    using removeEmpty_eq[of i e0 lines e0 ch] e0 e0_le seg dr cnt ex
    by (simp add: kept_def)
  have len: "length (take i lines @ kept) = i + length kept"
    using assms(1) by simp
  have sp: "spacing (i + length kept) (take i lines @ kept @ rest, c) =
              (take i lines @ kept @ sepOf rest @ rest, c \<or> sepOf rest \<noteq> [])" for c
  proof (cases rest)
    case Nil
    then show ?thesis using assms(1) by (simp add: spacing_def sepOf_def)
  next
    case (Cons n ns)
    have "(take i lines @ kept @ rest) ! (i + length kept) = n"
      using len Cons by (metis append.assoc nth_append_length)
    moreover have "take (i + length kept) (take i lines @ kept @ rest) = take i lines @ kept"
      using len by (metis append.assoc append_eq_conv_conj)
    moreover have "drop (i + length kept) (take i lines @ kept @ rest) = rest"
      using len by (metis append.assoc append_eq_conv_conj)
    ultimately show ?thesis using assms(1) Cons
      by (simp add: spacing_def sepOf_def splice_ins_def)
  qed
  show ?thesis
    unfolding blockStep_def by (simp add: e0_def[symmetric] re sp Let_def)
qed

function tidyLoop :: "nat \<Rightarrow> string list \<times> bool \<Rightarrow> string list \<times> bool" where
  "tidyLoop i (lines, changed) =
     (if i < length lines then
        (if \<not> isList (lines ! i) then tidyLoop (Suc i) (lines, changed)
         else case blockStep i (lines, changed) of
                (lines, e1, changed) \<Rightarrow> tidyLoop e1 (lines, changed))
      else (lines, changed))"
  by pat_completeness auto
termination
proof (relation "measure (\<lambda>(i, lines, changed).
          3 * length (filter isList (drop i lines)) + (length lines - i))", goal_cases)
  case 1
  show ?case by simp
next
  case (2 i lines changed)
  then have "drop i lines = lines ! i # drop (Suc i) lines"
    by (simp add: Cons_nth_drop_Suc)
  with 2 show ?case by simp
next
  case (3 i lines changed lines' y e1 changed')
  define block where "block = takeWhile isList (drop i lines)"
  define rest where "rest = dropWhile isList (drop i lines)"
  define kept where "kept = filter (\<lambda>l. \<not> isEmptyItem l) block"
  from 3 have il: "isList (lines ! i)" by simp
  from 3 have "blockStep i (lines, changed) = (lines', e1, changed')" by simp
  with blockStep_eq[OF 3(1) il, of changed]
  have l': "lines' = take i lines @ kept @ sepOf rest @ rest" and e1: "e1 = i + length kept"
    by (simp_all add: block_def rest_def kept_def)
  have len: "length (take i lines @ kept) = e1" using 3(1) e1 by simp
  have dr: "drop e1 lines' = sepOf rest @ rest"
    unfolding l' using len by (metis append.assoc append_eq_conv_conj)
  have ns: "filter isList (sepOf rest) = []" "length (sepOf rest) \<le> 1"
    by (auto simp: sepOf_def isList_def isWs_def split: list.splits)
  have dl: "drop i lines = block @ rest" by (simp add: block_def rest_def)
  have bne: "block \<noteq> []"
    using 3(1) il by (simp add: block_def Cons_nth_drop_Suc[symmetric])
  have fb: "filter isList block = block"
    unfolding block_def by (simp add: filter_id_conv) (meson set_takeWhileD)
  have "length lines' - e1 = length (sepOf rest) + length rest"
    using dr by (metis length_append length_drop)
  moreover have "length lines - i = length block + length rest"
    using dl by (metis length_append length_drop)
  moreover have "length (filter isList (drop i lines)) = length block + length (filter isList rest)"
    using dl fb by simp
  moreover obtain b bs where "block = b # bs" using bne by (cases block) auto
  ultimately have "3 * length (filter isList (drop e1 lines')) + (length lines' - e1)
                    < 3 * length (filter isList (drop i lines)) + (length lines - i)"
    using ns dr by simp
  then show ?case by simp
qed

declare tidyLoop.simps [simp del]

subsection \<open>The components and processFile\<close>

definition rewriteHeadingsAndCollectLists ::
    "settings \<Rightarrow> string list \<Rightarrow> tfile \<Rightarrow> string list \<times> bool" where
  "rewriteHeadingsAndCollectLists cfg lines file =
     rewriteLoop (headingLevel cfg) (basename file) (findYamlEnd lines) (lines, False)"

definition tidyLists :: "string list \<Rightarrow> string list \<times> bool" where
  "tidyLists lines = tidyLoop (findYamlEnd lines) (lines, False)"






section \<open>Settings and files used in the examples\<close>

definition demoSettings :: settings where
  "demoSettings =
     \<lparr>headingLevel = 4, targetDeckTemplate = ''[[Deck]]::[[filename]]'',
      enableTargetDeck = True, enableHeadingOps = True, enableListTidy = True,
      runScope = ScopeExclude, includePaths = [], excludePaths = [''Archive/'']\<rparr>"

definition demoPlugin :: plugin where
  "demoPlugin = \<lparr>settings = demoSettings, includePatterns = [], excludePatterns = []\<rparr>"

definition demoFile :: tfile where
  "demoFile = \<lparr>path = ''Notes/Card1.md'', basename = ''Card1''\<rparr>"

section \<open>Heading cleanup on the literal example (C2)\<close>

text \<open>
  Claim C2 says that at level 4 the line \<^verbatim>\<open>#### Question with `code` and <tag>\<close> becomes
  \<^verbatim>\<open>#### Question with  and\<close>. The expression \<^verbatim>\<open>/[`<>]+/g\<close> matches runs of the three
  characters themselves, not the text they enclose, so the words \<open>code\<close> and \<open>tag\<close>
  stay: the claim as stated fails on the source.
\<close>

theorem heading_cleanup_example_counterexample:
  "hd (fst (rewriteHeadingsAndCollectLists demoSettings
              [''#### Question with `code` and <tag>''] demoFile))
     \<noteq> ''#### Question with  and''"
  by code_simp

text \<open>
  Claim C2, amended: at heading level 4 the single line
  \<^verbatim>\<open>#### Question with `code` and <tag>\<close> is rewritten to
  \<^verbatim>\<open>#### Question with code and tag\<close> (every backtick, \<open><\<close> and \<open>>\<close> removed, the
  text between them kept, then trimmed), the backlink of that heading is appended
  after it, and the normalizer reports a change.
\<close>

theorem heading_cleanup_example:
  "rewriteHeadingsAndCollectLists (cfg\<lparr>headingLevel := 4\<rparr>)
     [''#### Question with `code` and <tag>''] file
   = ([''#### Question with code and tag'',
       ''[['' @ basename file @ ''#Question with code and tag]]''], True)"
  unfolding rewriteHeadingsAndCollectLists_def by simp code_simp

section \<open>A block of empty items only (C3)\<close>

text \<open>
  Claim C3 says that after all items of a block are removed nothing further applies to
  it, so that \<open>["- ", "text"]\<close> becomes \<open>["text"]\<close>. The source has no test for the
  emptied block: \<open>end\<close> is then \<open>i - 1\<close>, \<open>lines[end + 1]\<close> is the line that
  followed the block, and the separator is inserted before it although no list is left.
  The evaluation of \<open>tidyLists\<close> on the document of the claim:
\<close>

theorem tidy_emptied_block_inserts_separator:
  "tidyLists [''- '', ''text''] = (['' '', ''text''], True)"
  by code_simp

section \<open>The scope gate (C6)\<close>

text \<open>
  Claim C6: \<open>isInScope\<close> is true in mode \<open>all\<close>; in mode \<open>include\<close> it is true
  iff some compiled include pattern matches the path, so never with an empty list; in
  mode \<open>exclude\<close> it is true iff no compiled exclude pattern matches. With the exclude
  list \<open>["Archive/"]\<close> compiled by \<open>updateScopePatterns\<close>, \<open>Archive/x.md\<close> is out
  of scope and \<open>Notes/x.md\<close> is in scope.
\<close>

theorem scope_gate_truth_table:
  "(isInScope this p \<longleftrightarrow>
      (case runScope (settings this) of
         ScopeAll \<Rightarrow> True
       | ScopeInclude \<Rightarrow> (\<exists>r. r \<in> set (includePatterns this) \<and> re_test r p)
       | ScopeExclude \<Rightarrow> \<not> (\<exists>r. r \<in> set (excludePatterns this) \<and> re_test r p)))
   \<and> \<not> isInScope (this\<lparr>settings := (settings this)\<lparr>runScope := ScopeInclude\<rparr>,
                              includePatterns := []\<rparr>) p
   \<and> (case updateScopePatterns demoPlugin of
         Inl e \<Rightarrow> False
       | Inr this' \<Rightarrow> \<not> isInScope this' ''Archive/x.md'' \<and> isInScope this' ''Notes/x.md'')"
proof (intro conjI)
  show "isInScope this p \<longleftrightarrow>
      (case runScope (settings this) of
         ScopeAll \<Rightarrow> True
       | ScopeInclude \<Rightarrow> (\<exists>r. r \<in> set (includePatterns this) \<and> re_test r p)
       | ScopeExclude \<Rightarrow> \<not> (\<exists>r. r \<in> set (excludePatterns this) \<and> re_test r p))"
    by (cases "runScope (settings this)") (auto simp: isInScope_def list_ex_iff)
  show "\<not> isInScope (this\<lparr>settings := (settings this)\<lparr>runScope := ScopeInclude\<rparr>,
                              includePatterns := []\<rparr>) p"
    by (simp add: isInScope_def)
  show "case updateScopePatterns demoPlugin of
         Inl e \<Rightarrow> False
       | Inr this' \<Rightarrow> \<not> isInScope this' ''Archive/x.md'' \<and> isInScope this' ''Notes/x.md''"
    by code_simp
qed

section \<open>Glob compilation (C7)\<close>

text \<open>
  Claim C7 says that every character of a pattern other than \<open>*\<close> matches only
  itself. The class of characters that \<open>globToRegExp\<close> escapes,
  \<^verbatim>\<open>[.+^${}()|[\]\\]\<close>, leaves out the question mark, which therefore reaches the
  regular expression as a quantifier. The pattern \<open>a?\<close> compiles to \<^verbatim>\<open>/^a?$/\<close>: it
  does not match the path \<open>a?\<close>, it matches \<open>a\<close> and the empty path, and the
  pattern \<open>?\<close> alone makes the constructor throw.
\<close>

theorem glob_question_mark_not_literal:
  "globToRegExp ''a?'' = Inr [AssertStart, Rep (Lit (CHR ''a'')) Opt, AssertEnd]
   \<and> \<not> re_test [AssertStart, Rep (Lit (CHR ''a'')) Opt, AssertEnd] ''a?''
   \<and> re_test [AssertStart, Rep (Lit (CHR ''a'')) Opt, AssertEnd] ''a''
   \<and> re_test [AssertStart, Rep (Lit (CHR ''a'')) Opt, AssertEnd] []
   \<and> globToRegExp ''?'' = Inl SyntaxError"
  by code_simp

section \<open>The loops in closed form\<close>

text \<open>
  Both scans only touch the lines from their index on, and pass the flag through. So a
  scan from index \<open>i\<close> is the untouched prefix followed by the scan of the rest from
  index 0 (\<open>rewriteAll\<close>, \<open>tidyAll\<close>), and the scan from 0 unfolds along the list.
\<close>

definition isBlank :: "string \<Rightarrow> bool" where
  "isBlank l \<longleftrightarrow> trim l = []"

lemma skipBlank_eq:
  "j \<le> length lines \<Longrightarrow> skipBlank lines j = j + length (takeWhile isBlank (drop j lines))"
proof (induction lines j rule: skipBlank.induct)
  case (1 lines j)
  show ?case
  proof (cases "j < length lines")
    case False
    with 1(2) show ?thesis by (subst skipBlank.simps) simp
  next
    case True
    then have d: "drop j lines = lines ! j # drop (Suc j) lines"
      by (simp add: Cons_nth_drop_Suc)
    show ?thesis
    proof (cases "trim (lines ! j) = []")
      case False
      with True d show ?thesis by (subst skipBlank.simps) (simp add: isBlank_def)
    next
      case b: True
      with True 1 have "skipBlank lines (Suc j) = Suc j + length (takeWhile isBlank (drop (Suc j) lines))"
        by simp
      with True b d show ?thesis by (subst skipBlank.simps) (simp add: isBlank_def)
    qed
  qed
qed

definition placeBacklink :: "string \<Rightarrow> string list \<Rightarrow> string list \<times> bool" where
  "placeBacklink bl rest =
     (case rest of
        [] \<Rightarrow> ([bl], True)
      | x # xs \<Rightarrow>
          if \<not> isBacklinkShape (trim x) then (bl # x # xs, True)
          else if trim x \<noteq> bl then (bl # xs, True)
          else (x # xs, False))"

lemma headingStep_eq:
  fixes hp nm :: string and lines :: "string list"
  assumes "i < length lines"
  defines "raw \<equiv> drop (length hp) (lines ! i)"
  defines "c \<equiv> cleanHeadingOf raw"
  defines "ls \<equiv> drop (Suc i) lines"
  defines "pb \<equiv> placeBacklink (backlinkOf nm c) (dropWhile isBlank ls)"
  shows "headingStep hp nm i (lines, ch) =
           (take i lines @ (if raw \<noteq> c then hp @ c else lines ! i) # takeWhile isBlank ls @ fst pb,
            snd pb \<or> raw \<noteq> c \<or> ch)"
proof -
  define l1 where "l1 = (if raw \<noteq> c then lines[i := hp @ c] else lines)"
  define bl where "bl = backlinkOf nm c"
  define blanks where "blanks = takeWhile isBlank ls"
  define rest where "rest = dropWhile isBlank ls"
  define j where "j = skipBlank l1 (Suc i)"
  define h where "h = take i lines @ [if raw \<noteq> c then hp @ c else lines ! i]"
  have len1: "length l1 = length lines" by (simp add: l1_def)
  have dl1: "drop (Suc i) l1 = ls" by (simp add: l1_def ls_def)
  have l1: "l1 = h @ blanks @ rest"
  proof -
    have "l1 = take (Suc i) l1 @ drop (Suc i) l1" by simp
    moreover have "take (Suc i) l1 = h"
      using assms(1) by (simp add: l1_def h_def take_Suc_conv_app_nth upd_conv_take_nth_drop)
    ultimately show ?thesis by (simp add: dl1 blanks_def rest_def)
  qed
  have lh: "length h = Suc i" using assms(1) by (simp add: h_def)
  have j: "j = length (h @ blanks)"
    using assms(1) by (simp add: j_def skipBlank_eq len1 dl1 blanks_def lh)
  have nth: "l1 ! j = hd rest" if "rest \<noteq> []"
    using that unfolding l1 j by (cases rest) (simp_all add: nth_append)
  have jl: "length l1 \<le> j \<longleftrightarrow> rest = []" unfolding l1 j by auto
  have tk: "take j l1 = h @ blanks" and dr: "drop j l1 = rest"
    unfolding l1 j by (simp_all add: append_eq_conv_conj)
  have up: "l1[j := bl] = h @ blanks @ bl # tl rest" if "rest \<noteq> []"
    using that unfolding l1 j by (cases rest) (simp_all add: list_update_append)
  have "headingStep hp nm i (lines, ch) =
          (if length l1 \<le> j then (l1 @ [bl], True)
           else if \<not> isBacklinkShape (trim (l1 ! j)) then (splice_ins l1 j [bl], True)
           else if trim (l1 ! j) \<noteq> bl then (l1[j := bl], True)
           else (l1, raw \<noteq> c \<or> ch))"
    by (auto simp: headingStep_def Let_def raw_def c_def l1_def bl_def j_def)
  also have "\<dots> = (h @ blanks @ fst pb, snd pb \<or> raw \<noteq> c \<or> ch)"
  proof (cases rest)
    case Nil
    then show ?thesis using jl l1
      by (simp add: pb_def placeBacklink_def rest_def[symmetric] bl_def)
  next
    case (Cons x xs)
    then have ne: "rest \<noteq> []" by simp
    show ?thesis using jl nth[OF ne] up[OF ne] tk dr Cons l1
      by (simp add: pb_def placeBacklink_def rest_def[symmetric] bl_def[symmetric] splice_ins_def)
  qed
  finally show ?thesis by (simp add: h_def blanks_def)
qed

lemma headingStep_flag:
  "i < length lines \<Longrightarrow>
   headingStep hp nm i (lines, ch \<or> c0) =
     (fst (headingStep hp nm i (lines, c0)), ch \<or> snd (headingStep hp nm i (lines, c0)))"
  by (auto simp: headingStep_eq)

lemma headingStep_shift:
  assumes "i < length xs"
  shows "headingStep hp nm (length pre + i) (pre @ xs, ch) =
           (pre @ fst (headingStep hp nm i (xs, ch)), snd (headingStep hp nm i (xs, ch)))"
proof -
  have "length pre + i < length (pre @ xs)" using assms by simp
  moreover have "drop (Suc (length pre + i)) (pre @ xs) = drop (Suc i) xs" by simp
  moreover have "(pre @ xs) ! (length pre + i) = xs ! i" by simp
  moreover have "take (length pre + i) (pre @ xs) = pre @ take i xs" by simp
  ultimately show ?thesis using assms
    by (simp add: headingStep_eq del: drop_append take_append nth_append)
qed

lemma rewriteLoop_flag:
  "rewriteLoop level nm i (fst st, ch \<or> snd st) =
     (fst (rewriteLoop level nm i st), ch \<or> snd (rewriteLoop level nm i st))"
proof (induction level nm i st rule: rewriteLoop.induct)
  case (1 level nm i lines changed)
  show ?case
  proof (cases "i < length lines")
    case False
    then show ?thesis
      by (simp add: rewriteLoop.simps[of level nm i])
  next
    case il: True
    show ?thesis
    proof (cases "startsWith (lines ! i) (hPrefixOf level)")
      case False
      with il 1(1) show ?thesis
        by (simp add: rewriteLoop.simps[of level nm i])
    next
      case True
      with il 1(2) show ?thesis
        by (simp add: rewriteLoop.simps[of level nm i] headingStep_flag)
    qed
  qed
qed

lemma rewriteLoop_shift:
  "rewriteLoop level nm (length pre + i) (pre @ fst st, snd st) =
     (pre @ fst (rewriteLoop level nm i st), snd (rewriteLoop level nm i st))"
proof (induction level nm i st rule: rewriteLoop.induct)
  case (1 level nm i lines changed)
  show ?case
  proof (cases "i < length lines")
    case False
    then show ?thesis
      by (simp add: rewriteLoop.simps[of level nm i] rewriteLoop.simps[of level nm "length pre + i"])
  next
    case il: True
    show ?thesis
    proof (cases "startsWith (lines ! i) (hPrefixOf level)")
      case False
      with il 1(1) show ?thesis
        by (simp add: rewriteLoop.simps[of level nm i] rewriteLoop.simps[of level nm "length pre + i"])
    next
      case True
      with il 1(2) show ?thesis
        by (simp add: rewriteLoop.simps[of level nm i] rewriteLoop.simps[of level nm "length pre + i"]
              headingStep_shift)
    qed
  qed
qed

definition rewriteAll :: "nat \<Rightarrow> string \<Rightarrow> string list \<Rightarrow> string list \<times> bool" where
  "rewriteAll level nm xs = rewriteLoop level nm 0 (xs, False)"

lemma rewriteLoop_from:
  "i \<le> length lines \<Longrightarrow>
   rewriteLoop level nm i (lines, ch) =
     (take i lines @ fst (rewriteAll level nm (drop i lines)),
      ch \<or> snd (rewriteAll level nm (drop i lines)))"
proof -
  assume il: "i \<le> length lines"
  have "rewriteLoop level nm i (lines, ch) = rewriteLoop level nm i (fst (lines, False), ch \<or> snd (lines, False))"
    by simp
  also have "\<dots> = (fst (rewriteLoop level nm i (lines, False)), ch \<or> snd (rewriteLoop level nm i (lines, False)))"
    by (rule rewriteLoop_flag)
  also have "rewriteLoop level nm i (lines, False) =
               rewriteLoop level nm (length (take i lines) + 0) (take i lines @ fst (drop i lines, False), snd (drop i lines, False))"
    using il by simp
  also have "\<dots> = (take i lines @ fst (rewriteAll level nm (drop i lines)), snd (rewriteAll level nm (drop i lines)))"
    unfolding rewriteAll_def by (rule rewriteLoop_shift)
  finally show ?thesis by simp
qed





lemma findIndex_Some:
  "findIndex P xs = Some k \<Longrightarrow> k < length xs \<and> P (xs ! k) \<and> (\<forall>j<k. \<not> P (xs ! j))"
proof (induction xs arbitrary: k)
  case Nil
  then show ?case by simp
next
  case (Cons x xs)
  show ?case
  proof (cases "P x")
    case True
    with Cons.prems show ?thesis by simp
  next
    case False
    with Cons.prems obtain k' where k: "findIndex P xs = Some k'" "k = Suc k'" by auto
    from Cons.IH[OF k(1)] False k(2) show ?thesis
      by (auto simp: less_Suc_eq_0_disj)
  qed
qed

lemma findIndex_None: "findIndex P xs = None \<longleftrightarrow> (\<forall>x\<in>set xs. \<not> P x)"
  by (induction xs) auto

lemma findYamlEnd_le: "findYamlEnd lines \<le> length lines"
  by (auto simp: findYamlEnd_def indexOf_def split: list.splits option.splits
           dest!: findIndex_Some)

lemma rewriteHeadings_eq:
  "rewriteHeadingsAndCollectLists cfg lines file =
     (take (findYamlEnd lines) lines
        @ fst (rewriteAll (headingLevel cfg) (basename file) (drop (findYamlEnd lines) lines)),
      snd (rewriteAll (headingLevel cfg) (basename file) (drop (findYamlEnd lines) lines)))"
  unfolding rewriteHeadingsAndCollectLists_def
  by (simp add: rewriteLoop_from findYamlEnd_le)

lemma blockStep_flag:
  assumes "i < length lines" and "isList (lines ! i)"
    and "blockStep i (lines, c0) = (lines', e1, c1)"
  shows "blockStep i (lines, ch \<or> c0) = (lines', e1, ch \<or> c1)"
  using assms(3) by (auto simp: blockStep_eq[OF assms(1,2)])

lemma blockStep_shift:
  assumes "i < length xs" and "isList (xs ! i)"
    and "blockStep i (xs, ch) = (xs', e1, ch')"
  shows "blockStep (length pre + i) (pre @ xs, ch) = (pre @ xs', length pre + e1, ch')"
proof -
  have a: "length pre + i < length (pre @ xs)" using assms(1) by simp
  have b: "isList ((pre @ xs) ! (length pre + i))" using assms(2) by simp
  have c: "drop (length pre + i) (pre @ xs) = drop i xs" by simp
  have d: "take (length pre + i) (pre @ xs) = pre @ take i xs" by simp
  show ?thesis
    using assms(3) unfolding blockStep_eq[OF a b] blockStep_eq[OF assms(1,2)] c d
    by auto
qed

lemma tidyLoop_flag:
  "tidyLoop i (fst st, ch \<or> snd st) = (fst (tidyLoop i st), ch \<or> snd (tidyLoop i st))"
proof (induction i st rule: tidyLoop.induct)
  case (1 i lines changed)
  show ?case
  proof (cases "i < length lines")
    case False
    then show ?thesis by (simp add: tidyLoop.simps[of i])
  next
    case il: True
    show ?thesis
    proof (cases "isList (lines ! i)")
      case False
      with il 1(1) show ?thesis by (simp add: tidyLoop.simps[of i])
    next
      case True
      obtain lines' e1 c1 where bs: "blockStep i (lines, changed) = (lines', e1, c1)"
        by (cases "blockStep i (lines, changed)") auto
      from 1(2)[OF il _ bs[symmetric] refl] True
      have "tidyLoop e1 (lines', ch \<or> c1) = (fst (tidyLoop e1 (lines', c1)), ch \<or> snd (tidyLoop e1 (lines', c1)))"
        by simp
      with il True bs blockStep_flag[OF il True bs, of ch] show ?thesis
        by (simp add: tidyLoop.simps[of i])
    qed
  qed
qed

lemma tidyLoop_shift:
  "tidyLoop (length pre + i) (pre @ fst st, snd st) =
     (pre @ fst (tidyLoop i st), snd (tidyLoop i st))"
proof (induction i st rule: tidyLoop.induct)
  case (1 i lines changed)
  show ?case
  proof (cases "i < length lines")
    case False
    then show ?thesis
      by (simp add: tidyLoop.simps[of i] tidyLoop.simps[of "length pre + i"])
  next
    case il: True
    show ?thesis
    proof (cases "isList (lines ! i)")
      case False
      with il 1(1) show ?thesis
        by (simp add: tidyLoop.simps[of i] tidyLoop.simps[of "length pre + i"])
    next
      case True
      obtain lines' e1 c1 where bs: "blockStep i (lines, changed) = (lines', e1, c1)"
        by (cases "blockStep i (lines, changed)") auto
      from 1(2)[OF il _ bs[symmetric] refl] True
      have "tidyLoop (length pre + e1) (pre @ lines', c1) =
              (pre @ fst (tidyLoop e1 (lines', c1)), snd (tidyLoop e1 (lines', c1)))"
        by simp
      with il True bs blockStep_shift[OF il True bs, of pre] show ?thesis
        by (simp add: tidyLoop.simps[of i] tidyLoop.simps[of "length pre + i"])
    qed
  qed
qed

definition tidyAll :: "string list \<Rightarrow> string list \<times> bool" where
  "tidyAll xs = tidyLoop 0 (xs, False)"

lemma tidyLoop_from:
  "i \<le> length lines \<Longrightarrow>
   tidyLoop i (lines, ch) =
     (take i lines @ fst (tidyAll (drop i lines)), ch \<or> snd (tidyAll (drop i lines)))"
proof -
  assume il: "i \<le> length lines"
  have "tidyLoop i (lines, ch) = tidyLoop i (fst (lines, False), ch \<or> snd (lines, False))"
    by simp
  also have "\<dots> = (fst (tidyLoop i (lines, False)), ch \<or> snd (tidyLoop i (lines, False)))"
    by (rule tidyLoop_flag)
  also have "tidyLoop i (lines, False) =
               tidyLoop (length (take i lines) + 0) (take i lines @ fst (drop i lines, False), snd (drop i lines, False))"
    using il by simp
  also have "\<dots> = (take i lines @ fst (tidyAll (drop i lines)), snd (tidyAll (drop i lines)))"
    unfolding tidyAll_def by (rule tidyLoop_shift)
  finally show ?thesis by simp
qed





lemma tidyLists_eq:
  "tidyLists lines =
     (take (findYamlEnd lines) lines @ fst (tidyAll (drop (findYamlEnd lines) lines)),
      snd (tidyAll (drop (findYamlEnd lines) lines)))"
  unfolding tidyLists_def by (simp add: tidyLoop_from findYamlEnd_le)

section \<open>Front matter (C9)\<close>

lemma indexOf_Some:
  "indexOf xs x a = Some e \<Longrightarrow>
     a \<le> e \<and> e < length xs \<and> xs ! e = x \<and> (\<forall>j. a \<le> j \<and> j < e \<longrightarrow> xs ! j \<noteq> x)"
proof -
  assume "indexOf xs x a = Some e"
  then obtain k where k: "findIndex (\<lambda>y. y = x) (drop a xs) = Some k" and e: "e = a + k"
    by (auto simp: indexOf_def)
  from findIndex_Some[OF k] have kl: "k < length xs - a" and kx: "drop a xs ! k = x"
    and kn: "\<forall>j<k. drop a xs ! j \<noteq> x" by auto
  have "\<forall>j. a \<le> j \<and> j < e \<longrightarrow> xs ! j \<noteq> x"
  proof (intro allI impI)
    fix j assume j: "a \<le> j \<and> j < e"
    then have "j - a < k" using e by auto
    with kn have "drop a xs ! (j - a) \<noteq> x" by blast
    with j kl e show "xs ! j \<noteq> x" by simp
  qed
  with kl kx e show ?thesis by auto
qed

lemma indexOf_None:
  "indexOf xs x a = None \<longleftrightarrow> (\<forall>j. a \<le> j \<and> j < length xs \<longrightarrow> xs ! j \<noteq> x)"
proof -
  have "indexOf xs x a = None \<longleftrightarrow> x \<notin> set (drop a xs)"
    by (auto simp: indexOf_def findIndex_None)
  also have "\<dots> \<longleftrightarrow> (\<forall>j. a \<le> j \<and> j < length xs \<longrightarrow> xs ! j \<noteq> x)"
  proof
    assume n: "x \<notin> set (drop a xs)"
    show "\<forall>j. a \<le> j \<and> j < length xs \<longrightarrow> xs ! j \<noteq> x"
    proof (intro allI impI)
      fix j assume j: "a \<le> j \<and> j < length xs"
      then have "drop a xs ! (j - a) \<in> set (drop a xs)" by (intro nth_mem) auto
      with j n show "xs ! j \<noteq> x" by auto
    qed
  next
    assume h: "\<forall>j. a \<le> j \<and> j < length xs \<longrightarrow> xs ! j \<noteq> x"
    show "x \<notin> set (drop a xs)"
    proof
      assume "x \<in> set (drop a xs)"
      then obtain k where "k < length (drop a xs)" "drop a xs ! k = x"
        by (auto simp: in_set_conv_nth)
      with h[rule_format, of "a + k"] show False by auto
    qed
  qed
  finally show ?thesis .
qed

text \<open>
  Claim C9: \<open>findYamlEnd\<close> returns \<open>k + 1\<close> when line 0 is exactly \<open>---\<close> and
  the next line equal to \<open>---\<close> is at index \<open>k\<close>; it returns 0 when line 0 is not
  \<open>---\<close> (or there is no line) and when no later line is \<open>---\<close>. For a document
  that begins with \<open>---\<close>, \<open>title: x\<close>, \<open>---\<close> it returns 3, and both the heading
  normalizer and the list tidier return these three lines as they are, followed by
  their scan of the remaining lines alone: the scan starts at index 3 and neither reads
  nor writes lines 0 to 2.
\<close>

theorem front_matter_located_and_untouched:
  "(\<forall>k. lines \<noteq> [] \<and> lines ! 0 = ''---'' \<and> 1 \<le> k \<and> k < length lines \<and> lines ! k = ''---''
        \<and> (\<forall>j. 1 \<le> j \<and> j < k \<longrightarrow> lines ! j \<noteq> ''---'')
      \<longrightarrow> findYamlEnd lines = k + 1)
   \<and> (lines = [] \<or> lines ! 0 \<noteq> ''---'' \<longrightarrow> findYamlEnd lines = 0)
   \<and> ((\<forall>j. 1 \<le> j \<and> j < length lines \<longrightarrow> lines ! j \<noteq> ''---'') \<longrightarrow> findYamlEnd lines = 0)
   \<and> findYamlEnd (''---'' # ''title: x'' # ''---'' # rest) = 3
   \<and> rewriteHeadingsAndCollectLists cfg (''---'' # ''title: x'' # ''---'' # rest) file =
        (''---'' # ''title: x'' # ''---''
           # fst (rewriteLoop (headingLevel cfg) (basename file) 0 (rest, False)),
         snd (rewriteLoop (headingLevel cfg) (basename file) 0 (rest, False)))
   \<and> tidyLists (''---'' # ''title: x'' # ''---'' # rest) =
        (''---'' # ''title: x'' # ''---'' # fst (tidyLoop 0 (rest, False)),
         snd (tidyLoop 0 (rest, False)))"
proof (intro conjI allI impI)
  fix k
  assume h: "lines \<noteq> [] \<and> lines ! 0 = ''---'' \<and> 1 \<le> k \<and> k < length lines \<and> lines ! k = ''---''
        \<and> (\<forall>j. 1 \<le> j \<and> j < k \<longrightarrow> lines ! j \<noteq> ''---'')"
  then obtain l0 ls where l: "lines = l0 # ls" "l0 = ''---''" by (cases lines) auto
  from h have "indexOf lines ''---'' 1 \<noteq> None" by (auto simp: indexOf_None)
  then obtain e where e: "indexOf lines ''---'' 1 = Some e" by auto
  from indexOf_Some[OF e] h have "e = k"
    by (metis linorder_neqE_nat)
  with e l show "findYamlEnd lines = k + 1" by (simp add: findYamlEnd_def)
next
  assume "lines = [] \<or> lines ! 0 \<noteq> ''---''"
  then show "findYamlEnd lines = 0" by (auto simp: findYamlEnd_def split: list.splits)
next
  assume "\<forall>j. 1 \<le> j \<and> j < length lines \<longrightarrow> lines ! j \<noteq> ''---''"
  then have "indexOf lines ''---'' 1 = None" by (simp add: indexOf_None)
  then show "findYamlEnd lines = 0" by (simp add: findYamlEnd_def split: list.splits)
next
  show y: "findYamlEnd (''---'' # ''title: x'' # ''---'' # rest) = 3"
    by (simp add: findYamlEnd_def indexOf_def)
  show "rewriteHeadingsAndCollectLists cfg (''---'' # ''title: x'' # ''---'' # rest) file =
        (''---'' # ''title: x'' # ''---''
           # fst (rewriteLoop (headingLevel cfg) (basename file) 0 (rest, False)),
         snd (rewriteLoop (headingLevel cfg) (basename file) 0 (rest, False)))"
    by (simp add: rewriteHeadings_eq y rewriteAll_def)
  show "tidyLists (''---'' # ''title: x'' # ''---'' # rest) =
        (''---'' # ''title: x'' # ''---'' # fst (tidyLoop 0 (rest, False)),
         snd (tidyLoop 0 (rest, False)))"
    by (simp add: tidyLists_eq y tidyAll_def)
qed

text \<open>
  The three cases of \<open>findYamlEnd\<close> at concrete documents: a closed block whose
  closing line is followed by another \<open>---\<close>, a document that does not start with
  the delimiter, and an unterminated block.
\<close>

theorem front_matter_located_and_untouched_witness:
  "findYamlEnd [''---'', ''a: 1'', ''b: 2'', ''---'', ''---'', ''text''] = 4
   \<and> findYamlEnd [''text'', ''---''] = 0
   \<and> findYamlEnd [''---'', ''a: 1''] = 0"
proof -
  let ?L = "[''---'', ''a: 1'', ''b: 2'', ''---'', ''---'', ''text'']"
  have "\<forall>j. 1 \<le> j \<and> j < 3 \<longrightarrow> ?L ! j \<noteq> ''---''"
  proof (intro allI impI)
    fix j :: nat assume "1 \<le> j \<and> j < 3"
    then have "j = 1 \<or> j = 2" by arith
    then show "?L ! j \<noteq> ''---''" by auto
  qed
  then have p: "?L \<noteq> [] \<and> ?L ! 0 = ''---'' \<and> 1 \<le> (3::nat) \<and> 3 < length ?L \<and> ?L ! 3 = ''---''
        \<and> (\<forall>j. 1 \<le> j \<and> j < 3 \<longrightarrow> ?L ! j \<noteq> ''---'')"
    by simp
  from front_matter_located_and_untouched[of ?L]
  have "\<forall>k. ?L \<noteq> [] \<and> ?L ! 0 = ''---'' \<and> 1 \<le> k \<and> k < length ?L \<and> ?L ! k = ''---''
        \<and> (\<forall>j. 1 \<le> j \<and> j < k \<longrightarrow> ?L ! j \<noteq> ''---'') \<longrightarrow> findYamlEnd ?L = k + 1"
    by (rule conjunct1)
  then have a: "findYamlEnd ?L = 3 + 1" using p by blast
  have b: "findYamlEnd [''text'', ''---''] = 0"
    using front_matter_located_and_untouched[of "[''text'', ''---'']"] by simp
  have "\<forall>j. 1 \<le> j \<and> j < length [''---'', ''a: 1''] \<longrightarrow> [''---'', ''a: 1''] ! j \<noteq> ''---''"
  proof (intro allI impI)
    fix j :: nat assume "1 \<le> j \<and> j < length [''---'', ''a: 1'']"
    then have "j = 1" by simp
    then show "[''---'', ''a: 1''] ! j \<noteq> ''---''" by simp
  qed
  with front_matter_located_and_untouched[of "[''---'', ''a: 1'']"]
  have c: "findYamlEnd [''---'', ''a: 1''] = 0" by blast
  from a b c show ?thesis by simp
qed

section \<open>The list-line classifier (C10)\<close>

lemma dropWhile_ws_append:
  "list_all isWs ws \<Longrightarrow> dropWhile isWs (ws @ r) = dropWhile isWs r"
  by (induction ws) auto

lemma isList_iff:
  "isList l \<longleftrightarrow>
     (\<exists>ws m rest. l = ws @ m @ rest \<and> list_all isWs ws \<and>
        (m = ''-'' \<or> m = ''+'' \<or> m = ''*'' \<or>
         (\<exists>ds. ds \<noteq> [] \<and> list_all isDigit ds \<and> m = ds @ ''.'')))"
proof
  assume il: "isList l"
  define ws where "ws = takeWhile isWs l"
  have l: "l = ws @ dropWhile isWs l" by (simp add: ws_def)
  have w: "list_all isWs ws" by (simp add: ws_def list_all_iff) (meson set_takeWhileD)
  from il obtain c cs where r: "dropWhile isWs l = c # cs" by (auto simp: isList_def split: list.splits)
  with il have cases: "c \<in> set ''-+*'' \<or> (isDigit c \<and> (\<exists>r. dropWhile isDigit cs = CHR ''.'' # r))"
    by (auto simp: isList_def split: list.splits)
  then show "\<exists>ws m rest. l = ws @ m @ rest \<and> list_all isWs ws \<and>
        (m = ''-'' \<or> m = ''+'' \<or> m = ''*'' \<or>
         (\<exists>ds. ds \<noteq> [] \<and> list_all isDigit ds \<and> m = ds @ ''.''))"
  proof
    assume "c \<in> set ''-+*''"
    then have "[c] = ''-'' \<or> [c] = ''+'' \<or> [c] = ''*''" by auto
    moreover have "l = ws @ [c] @ cs" using l r by simp
    ultimately show ?thesis using w by blast
  next
    assume "isDigit c \<and> (\<exists>r. dropWhile isDigit cs = CHR ''.'' # r)"
    then obtain r' where d: "isDigit c" "dropWhile isDigit cs = CHR ''.'' # r'" by auto
    define ds where "ds = c # takeWhile isDigit cs"
    have "list_all isDigit ds" using d(1) by (simp add: ds_def list_all_iff) (meson set_takeWhileD)
    moreover have "cs = takeWhile isDigit cs @ CHR ''.'' # r'" using d(2) by (metis takeWhile_dropWhile_id)
    then have "l = ws @ (ds @ ''.'') @ r'" using l r by (simp add: ds_def)
    moreover have "ds \<noteq> []" by (simp add: ds_def)
    ultimately show ?thesis using w by blast
  qed
next
  assume "\<exists>ws m rest. l = ws @ m @ rest \<and> list_all isWs ws \<and>
        (m = ''-'' \<or> m = ''+'' \<or> m = ''*'' \<or>
         (\<exists>ds. ds \<noteq> [] \<and> list_all isDigit ds \<and> m = ds @ ''.''))"
  then obtain ws m rest where l: "l = ws @ m @ rest" and w: "list_all isWs ws"
    and m: "m = ''-'' \<or> m = ''+'' \<or> m = ''*'' \<or>
         (\<exists>ds. ds \<noteq> [] \<and> list_all isDigit ds \<and> m = ds @ ''.'')" by blast
  have dw: "dropWhile isWs l = dropWhile isWs (m @ rest)"
    unfolding l using w by (rule dropWhile_ws_append)
  from m show "isList l"
  proof (elim disjE exE conjE)
    assume "m = ''-''" then show ?thesis by (simp add: isList_def dw isWs_def)
  next
    assume "m = ''+''" then show ?thesis by (simp add: isList_def dw isWs_def)
  next
    assume "m = ''*''" then show ?thesis by (simp add: isList_def dw isWs_def)
  next
    fix ds assume ds: "ds \<noteq> []" "list_all isDigit ds" "m = ds @ ''.''"
    then obtain d ds' where dd: "ds = d # ds'" by (cases ds) auto
    with ds have d: "isDigit d" "list_all isDigit ds'" by auto
    have nw: "\<not> isWs d" using d(1) by (auto simp: isDigit_def isWs_def)
    have "dropWhile isDigit (ds' @ CHR ''.'' # rest) = CHR ''.'' # rest"
      using d(2) by (induction ds') (auto simp: isDigit_def)
    with d(1) nw show ?thesis by (simp add: isList_def dw ds(3) dd)
  qed
qed

text \<open>
  Claim C10: \<open>isList\<close> accepts exactly the lines that, after leading whitespace,
  start with \<open>-\<close>, \<open>+\<close> or \<open>*\<close>, or with digits and a dot; nothing is asked of
  what follows the marker, so no space is needed after it. Hence the thematic break
  \<open>---\<close>, a line that starts with \<open>**bold\<close> and a line such as \<open>1.5 litres\<close> are
  list lines. Such a line joins the list lines around it into one block (the block that
  starts at \<open>- a\<close> ends after \<open>- b\<close>, and the only separator goes there), and on
  its own it gets the separator inserted after it.
\<close>

theorem list_classifier_accepts_unspaced_markers:
  "(isList l \<longleftrightarrow>
     (\<exists>ws m rest. l = ws @ m @ rest \<and> list_all isWs ws \<and>
        (m = ''-'' \<or> m = ''+'' \<or> m = ''*'' \<or>
         (\<exists>ds. ds \<noteq> [] \<and> list_all isDigit ds \<and> m = ds @ ''.''))))
   \<and> isList ''---'' \<and> isList ''**bold'' \<and> isList ''1.5 litres''
   \<and> blockEnd [''- a'', ''---'', ''- b'', ''text''] 1 = 3
   \<and> tidyLists [''- a'', ''---'', ''- b'', ''text''] =
        ([''- a'', ''---'', ''- b'', '' '', ''text''], True)
   \<and> tidyLists [''intro'', ''**bold'', ''text''] =
        ([''intro'', ''**bold'', '' '', ''text''], True)"
proof (intro conjI)
  show "isList l \<longleftrightarrow>
     (\<exists>ws m rest. l = ws @ m @ rest \<and> list_all isWs ws \<and>
        (m = ''-'' \<or> m = ''+'' \<or> m = ''*'' \<or>
         (\<exists>ds. ds \<noteq> [] \<and> list_all isDigit ds \<and> m = ds @ ''.'')))"
    by (rule isList_iff)
  show "isList ''---''" by code_simp
  show "isList ''**bold''" by code_simp
  show "isList ''1.5 litres''" by code_simp
  show "blockEnd [''- a'', ''---'', ''- b'', ''text''] 1 = 3" by code_simp
  show "tidyLists [''- a'', ''---'', ''- b'', ''text''] =
        ([''- a'', ''---'', ''- b'', '' '', ''text''], True)" by code_simp
  show "tidyLists [''intro'', ''**bold'', ''text''] =
        ([''intro'', ''**bold'', '' '', ''text''], True)" by code_simp
qed

section \<open>Writing back (C8)\<close>


section \<open>Deck-header insertion (C4)\<close>

text \<open>
  Two notions of the claim, written after its words. \<open>replaceLiteral\<close> puts the
  replacement, as it is, in the place of every occurrence of the token, from left to
  right. \<open>deckIndex\<close> is the index the insertion starts from: the line after the
  front matter, or without closed front matter the first line whose trimmed text starts
  with \<open>#\<close>, or 0.
\<close>

function replaceLiteral :: "string \<Rightarrow> string \<Rightarrow> string \<Rightarrow> string" where
  "replaceLiteral needle rep [] = []"
| "replaceLiteral needle rep (c # cs) =
     (if needle \<noteq> [] \<and> startsWith (c # cs) needle
      then rep @ replaceLiteral needle rep (drop (length needle) (c # cs))
      else c # replaceLiteral needle rep cs)"
  by pat_completeness auto
termination
  by (relation "measure (\<lambda>(needle, rep, s). length s)") auto

definition deckIndex :: "string list \<Rightarrow> nat" where
  "deckIndex lines =
     (if findYamlEnd lines = 0
      then (case findIndex (\<lambda>l. startsWith (trim l) ''#'') lines of Some fh \<Rightarrow> fh | None \<Rightarrow> 0)
      else findYamlEnd lines)"

lemma expandRepl_plain: "CHR ''$'' \<notin> set repl \<Longrightarrow> expandRepl m pre post repl = repl"
  by (induction m pre post repl rule: expandRepl.induct) auto

lemma replaceFrom_literal:
  "CHR ''$'' \<notin> set repl \<Longrightarrow>
   replaceFrom (matchLit needle) repl pre s = replaceLiteral needle repl s"
proof (induction needle repl s arbitrary: pre rule: replaceLiteral.induct)
  case (1 needle rep)
  then show ?case by simp
next
  case (2 needle rep c cs)
  show ?case
  proof (cases "needle \<noteq> [] \<and> startsWith (c # cs) needle")
    case True
    then have k: "matchLit needle (c # cs) = length needle" "0 < length needle"
      by (auto simp: matchLit_def)
    from 2(1)[OF True 2(3)] True k 2(3) show ?thesis
      by (simp add: expandRepl_plain Let_def)
  next
    case False
    then have k: "matchLit needle (c # cs) = 0" by (auto simp: matchLit_def)
    from 2(2)[OF False 2(3)] False k show ?thesis by (auto simp: Let_def)
  qed
qed

lemma deckIndex_le: "deckIndex lines \<le> length lines"
  using findYamlEnd_le[of lines]
  by (auto simp: deckIndex_def split: option.splits dest!: findIndex_Some)

lemma marker_not_empty: "marker \<noteq> []"
  by (simp add: marker_def)

lemma marker_includes_marker: "str_includes marker marker"
  by (simp add: marker_def startsWith_def)

text \<open>
  Claim C4 says that exactly three lines are inserted, that the token is replaced by
  the basename literally, and that afterwards exactly one line contains the marker. On
  the source each of the three fails: after closed front matter a fourth, empty line
  goes in first (the guard on \<open>lines[idx - 1] === "---"\<close>); the basename is the
  replacement text of \<^verbatim>\<open>String.replace\<close>, where \<^verbatim>\<open>$$\<close> stands for one dollar sign; and
  a basename that contains the marker puts it on the template line as well.
\<close>

theorem deck_header_counterexample:
  "length (fst (ensureTargetDeck demoSettings [''---'', ''title: x'', ''---'', ''body''] demoFile))
     = length [''---'', ''title: x'', ''---'', ''body''] + 4
   \<and> fst (ensureTargetDeck demoSettings [] (demoFile\<lparr>basename := ''Cost $$''\<rparr>))
       = [''TARGET DECK'', ''[[Deck]]::[[Cost $]]'', []]
   \<and> length (filter (\<lambda>l. str_includes l marker)
        (fst (ensureTargetDeck demoSettings [] (demoFile\<lparr>basename := ''TARGET DECK''\<rparr>)))) = 2"
  by code_simp

text \<open>
  Claim C4, amended: if some line contains \<open>TARGET DECK\<close>, \<open>ensureTargetDeck\<close>
  returns the lines as they are and false. Otherwise it returns true and inserts, at the
  computed index, the marker line, the rendered template and one empty line, after one
  more empty line when the line before the index is exactly \<open>---\<close>. For a basename
  without a dollar sign the rendered template is the template with every occurrence of
  \<open>filename\<close> replaced by the basename. After a run on a document without the marker
  exactly one line contains it, provided the rendered template does not.
\<close>

theorem deck_header_insertion:
  fixes cfg :: settings and tf :: tfile and lines :: "string list"
  defines "tpl \<equiv> replaceAll (matchLit ''filename'') (basename tf) (targetDeckTemplate cfg)"
  defines "idx \<equiv> deckIndex lines"
  defines "present \<equiv> list_ex (\<lambda>l. str_includes l marker) lines"
  shows "ensureTargetDeck cfg lines tf =
           (if present then (lines, False)
            else (take idx lines
                    @ (if 0 < idx \<and> lines ! (idx - 1) = ''---'' then [[]] else [])
                    @ [marker, tpl, []] @ drop idx lines, True))
         \<and> (CHR ''$'' \<notin> set (basename tf) \<longrightarrow>
               tpl = replaceLiteral ''filename'' (basename tf) (targetDeckTemplate cfg))
         \<and> (\<not> present \<and> \<not> str_includes tpl marker \<longrightarrow>
               length (filter (\<lambda>l. str_includes l marker) (fst (ensureTargetDeck cfg lines tf))) = 1)"
proof (intro conjI impI)
  have il: "idx \<le> length lines" unfolding idx_def by (rule deckIndex_le)
  have sp: "splice_ins (splice_ins lines idx [[]]) (idx + 1) ys
              = take idx lines @ [[]] @ ys @ drop idx lines" for ys
    using il by (simp add: splice_ins_def min_absorb2)
  have ci: "(if findYamlEnd lines = 0
             then (case findIndex (\<lambda>l. startsWith (trim l) ''#'') lines of
                     Some fh \<Rightarrow> fh | None \<Rightarrow> findYamlEnd lines)
             else findYamlEnd lines) = idx"
    by (simp add: idx_def deckIndex_def split: option.splits)
  show eq: "ensureTargetDeck cfg lines tf =
           (if present then (lines, False)
            else (take idx lines
                    @ (if 0 < idx \<and> lines ! (idx - 1) = ''---'' then [[]] else [])
                    @ [marker, tpl, []] @ drop idx lines, True))"
    unfolding ensureTargetDeck_def Let_def ci
    using il by (simp add: present_def tpl_def splice_ins_def min_absorb2)
  show "tpl = replaceLiteral ''filename'' (basename tf) (targetDeckTemplate cfg)"
    if "CHR ''$'' \<notin> set (basename tf)"
    using that by (simp add: tpl_def replaceAll_def replaceFrom_literal)
  show "length (filter (\<lambda>l. str_includes l marker) (fst (ensureTargetDeck cfg lines tf))) = 1"
    if h: "\<not> present \<and> \<not> str_includes tpl marker"
  proof -
    from h have n: "filter (\<lambda>l. str_includes l marker) lines = []"
      by (auto simp: present_def list_ex_iff filter_empty_conv)
    have "filter (\<lambda>l. str_includes l marker) (take idx lines) = []"
      "filter (\<lambda>l. str_includes l marker) (drop idx lines) = []"
      using n by (auto simp: filter_empty_conv dest: in_set_takeD in_set_dropD)
    with h show ?thesis
      by (simp add: eq marker_not_empty marker_includes_marker)
  qed
qed

text \<open>
  The amended claim at a document without the marker, with the default-shaped template
  and the basename \<open>Card1\<close>.
\<close>

theorem deck_header_insertion_witness:
  "fst (ensureTargetDeck demoSettings [''intro'', ''# Title''] demoFile)
     = [''intro'', ''TARGET DECK'', ''[[Deck]]::[[Card1]]'', [], ''# Title'']
   \<and> replaceLiteral ''filename'' ''Card1'' ''[[Deck]]::[[filename]]'' = ''[[Deck]]::[[Card1]]''
   \<and> length (filter (\<lambda>l. str_includes l marker)
        (fst (ensureTargetDeck demoSettings [''intro'', ''# Title''] demoFile))) = 1"
proof -
  have d: "CHR ''$'' \<notin> set (basename demoFile)" by (simp add: demoFile_def)
  have t: "replaceAll (matchLit ''filename'') (basename demoFile) (targetDeckTemplate demoSettings)
             = ''[[Deck]]::[[Card1]]''" by code_simp
  have p: "\<not> list_ex (\<lambda>l. str_includes l marker) [''intro'', ''# Title'']
           \<and> \<not> str_includes (replaceAll (matchLit ''filename'') (basename demoFile)
                 (targetDeckTemplate demoSettings)) marker"
    unfolding t by code_simp
  have i: "deckIndex [''intro'', ''# Title''] = 1" by code_simp
  note th = deck_header_insertion[of demoSettings "[''intro'', ''# Title'']" demoFile]
  from th p have c: "length (filter (\<lambda>l. str_includes l marker)
        (fst (ensureTargetDeck demoSettings [''intro'', ''# Title''] demoFile))) = 1" by blast
  from th d have r: "replaceAll (matchLit ''filename'') (basename demoFile) (targetDeckTemplate demoSettings)
      = replaceLiteral ''filename'' (basename demoFile) (targetDeckTemplate demoSettings)" by blast
  from th p have e: "fst (ensureTargetDeck demoSettings [''intro'', ''# Title''] demoFile)
     = [''intro'', ''TARGET DECK'', ''[[Deck]]::[[Card1]]'', [], ''# Title'']"
    by (simp add: i t marker_def)
  from r t have "replaceLiteral ''filename'' ''Card1'' ''[[Deck]]::[[filename]]'' = ''[[Deck]]::[[Card1]]''"
    by (simp add: demoFile_def demoSettings_def)
  with c e show ?thesis by simp
qed

section \<open>Backlink placement (C5)\<close>





section \<open>Idempotence of the pipeline (C1)\<close>

subsection \<open>Trimming, cleaned headings and backlinks\<close>

lemma trim_eq_Nil: "trim s = [] \<longleftrightarrow> list_all isWs s"
proof -
  have "trim s = [] \<longleftrightarrow> (\<forall>x\<in>set (dropWhile isWs s). isWs x)"
    by (simp add: trim_def dropWhile_eq_Nil_conv)
  also have "\<dots> \<longleftrightarrow> dropWhile isWs s = []"
  proof
    assume a: "\<forall>x\<in>set (dropWhile isWs s). isWs x"
    show "dropWhile isWs s = []"
    proof (rule ccontr)
      assume n: "dropWhile isWs s \<noteq> []"
      then have "\<not> isWs (hd (dropWhile isWs s))" by (rule hd_dropWhile)
      moreover from n have "hd (dropWhile isWs s) \<in> set (dropWhile isWs s)" by simp
      ultimately show False using a by blast
    qed
  next
    assume e: "dropWhile isWs s = []"
    show "\<forall>x\<in>set (dropWhile isWs s). isWs x" unfolding e by simp
  qed
  also have "\<dots> \<longleftrightarrow> list_all isWs s" by (simp add: dropWhile_eq_Nil_conv list_all_iff)
  finally show ?thesis .
qed

lemma isBlank_iff: "isBlank l \<longleftrightarrow> isBlankLine l"
  by (simp add: isBlank_def isBlankLine_def trim_eq_Nil)














subsection \<open>A second heading pass changes nothing\<close>
























subsection \<open>A second list pass changes nothing\<close>











subsection \<open>Stable documents: their suffixes, and the list pass after the heading pass\<close>












subsection \<open>Front matter, the deck header and the marker across a run\<close>



























subsection \<open>The pipeline run twice\<close>




end
